theory Spec2Isabelle
  imports
    Main
    "HOL-Library.Word"
    "HOL-Library.Finite_Map"
    "HOL-Library.Char_ord"
    "HOL-Library.List_Lexorder"
begin

section \<open>The TTL map of package alert\<close>

text \<open>
  The Go source keeps a \<^verbatim>\<open>map[string]*item\<close> behind a mutex. Every item pointer is
  created inside \<^verbatim>\<open>Put\<close>, stored under exactly one key and never handed out, so no two
  keys share an item and the map is modelled by value: a finite map from keys to items.
  Each operation runs between \<^verbatim>\<open>Lock\<close> and \<^verbatim>\<open>Unlock\<close>; the model takes one operation as
  one atomic step on the map. The clock (\<^verbatim>\<open>time.Now().Unix()\<close>, the ticker's value) is a
  parameter \<open>now\<close> of each step.

  Go's \<^verbatim>\<open>int64\<close> is a 64-bit word; \<^verbatim>\<open>int\<close> is taken at its 64-bit width, where the
  conversion \<^verbatim>\<open>int64(maxTTL)\<close> is the identity. Subtraction wraps and \<^verbatim>\<open>>\<close> compares
  signed values.
\<close>

type_synonym int64 = "64 word"
type_synonym go_int = "64 word"

text \<open>\<^verbatim>\<open>type item struct { value int; lastAccess int64 }\<close>\<close>

record item =
  item_value :: go_int
  lastAccess :: int64

text \<open>\<^verbatim>\<open>type TTLMap struct { m map[string]*item; l sync.Mutex }\<close>\<close>

type_synonym TTLMap = "(string, item) fmap"

text \<open>
  \<^verbatim>\<open>NewTTLMap(ln, maxTTL)\<close>: \<^verbatim>\<open>make(map[string]*item, ln)\<close> is an empty map whatever the
  capacity hint; \<open>maxTTL\<close> is captured by the sweeper only.
\<close>

definition NewTTLMap :: "go_int \<Rightarrow> go_int \<Rightarrow> TTLMap" where
  "NewTTLMap ln maxTTL = fmempty"

text \<open>
  The body of the sweeper's inner loop for the key \<open>k\<close>:
  \<^verbatim>\<open>if now.Unix() - v.lastAccess > int64(maxTTL) { delete(m.m, k) }\<close>.
  A key that is no longer in the map is not produced by \<^verbatim>\<open>range\<close>.
\<close>

definition sweep_step :: "int64 \<Rightarrow> go_int \<Rightarrow> string \<Rightarrow> TTLMap \<Rightarrow> TTLMap" where
  "sweep_step now maxTTL k t =
     (case fmlookup t k of
        None \<Rightarrow> t
      | Some v \<Rightarrow> if maxTTL <s now - lastAccess v then fmdrop k t else t)"

text \<open>\<^verbatim>\<open>for k, v := range m.m { ... }\<close> visiting the keys in the order \<open>ks\<close>.\<close>

definition sweep_loop :: "int64 \<Rightarrow> go_int \<Rightarrow> string list \<Rightarrow> TTLMap \<Rightarrow> TTLMap" where
  "sweep_loop now maxTTL ks t = fold (sweep_step now maxTTL) ks t"

text \<open>
  One tick of the sweeper. Go leaves the iteration order of a map open; the model visits
  the keys in ascending order, and \<open>sweep_loop_any_order\<close> below shows that every other
  enumeration of the keys gives the same map.
\<close>

definition sweep :: "int64 \<Rightarrow> go_int \<Rightarrow> TTLMap \<Rightarrow> TTLMap" where
  "sweep now maxTTL t = sweep_loop now maxTTL (sorted_list_of_fset (fmdom t)) t"

text \<open>\<^verbatim>\<open>func (m *TTLMap) Len() int { return len(m.m) }\<close>\<close>

definition Len :: "TTLMap \<Rightarrow> nat" where
  "Len t = fcard (fmdom t)"

text \<open>
  \<^verbatim>\<open>Put\<close>: the item found under \<open>k\<close>, or a new \<^verbatim>\<open>&item{value: v}\<close> (its \<open>lastAccess\<close>
  is Go's zero) stored under \<open>k\<close>; then \<^verbatim>\<open>it.lastAccess = time.Now().Unix()\<close> on
  whichever item that is.
\<close>

definition Put :: "int64 \<Rightarrow> string \<Rightarrow> go_int \<Rightarrow> TTLMap \<Rightarrow> TTLMap" where
  "Put now k v t =
     (let (it, t') =
            (case fmlookup t k of
               Some it \<Rightarrow> (it, t)
             | None \<Rightarrow>
                 (let it = \<lparr>item_value = v, lastAccess = 0\<rparr> in (it, fmupd k it t)))
      in fmupd k (it\<lparr>lastAccess := now\<rparr>) t')"

text \<open>
  \<^verbatim>\<open>Get\<close>: the named result \<open>v\<close> starts at Go's zero value; a present key gives its
  value and has its \<open>lastAccess\<close> set to the clock.
\<close>

definition Get :: "int64 \<Rightarrow> string \<Rightarrow> TTLMap \<Rightarrow> go_int \<times> TTLMap" where
  "Get now k t =
     (case fmlookup t k of
        Some it \<Rightarrow> (item_value it, fmupd k (it\<lparr>lastAccess := now\<rparr>) t)
      | None \<Rightarrow> (0, t))"

subsection \<open>Callers\<close>

text \<open>
  The map is driven from outside: callers invoke \<^verbatim>\<open>Put\<close> and \<^verbatim>\<open>Get\<close>, the sweeper
  goroutine runs one pass per tick. The mutex makes every call and every pass atomic, so
  a run of the program is a sequence of such steps, each with the clock value it reads.
\<close>

datatype call = CallPut int64 string go_int | CallGet int64 string | Tick int64

fun step :: "go_int \<Rightarrow> call \<Rightarrow> TTLMap \<Rightarrow> TTLMap" where
  "step maxTTL (CallPut now k v) t = Put now k v t"
| "step maxTTL (CallGet now k) t = snd (Get now k t)"
| "step maxTTL (Tick now) t = sweep now maxTTL t"

fun run :: "go_int \<Rightarrow> call list \<Rightarrow> TTLMap \<Rightarrow> TTLMap" where
  "run maxTTL [] t = t"
| "run maxTTL (c # cs) t = run maxTTL cs (step maxTTL c t)"

text \<open>A caller that only puts: one \<^verbatim>\<open>Put\<close> per (clock, key, value) triple, in order.\<close>

definition put_calls :: "(int64 \<times> string \<times> go_int) list \<Rightarrow> call list" where
  "put_calls ps = map (\<lambda>(now, k, v). CallPut now k v) ps"

text \<open>
  The idle time of an entry last accessed at \<open>la\<close>, seen by a sweep at \<open>now\<close>, read as
  integers: it is at most \<open>maxTTL\<close>, and the clock difference does not fall below the
  range of \<^verbatim>\<open>int64\<close> (which any two clock readings after 1970 satisfy).
\<close>

definition idle_within :: "go_int \<Rightarrow> int64 \<Rightarrow> int64 \<Rightarrow> bool" where
  "idle_within maxTTL la now \<longleftrightarrow>
     sint now - sint la \<le> sint maxTTL \<and> - (2 ^ 63) \<le> sint now - sint la"

text \<open>
  \<open>touched_in_time maxTTL k la cs\<close>: along the calls \<open>cs\<close>, every tick finds the latest
  access to \<open>k\<close> (initially at \<open>la\<close>, then the clock of the latest \<^verbatim>\<open>Put\<close> or \<^verbatim>\<open>Get\<close>
  on \<open>k\<close>) at most \<open>maxTTL\<close> back.
\<close>

fun touched_in_time :: "go_int \<Rightarrow> string \<Rightarrow> int64 \<Rightarrow> call list \<Rightarrow> bool" where
  "touched_in_time maxTTL k la [] = True"
| "touched_in_time maxTTL k la (CallPut now k' v # cs) =
     touched_in_time maxTTL k (if k' = k then now else la) cs"
| "touched_in_time maxTTL k la (CallGet now k' # cs) =
     touched_in_time maxTTL k (if k' = k then now else la) cs"
| "touched_in_time maxTTL k la (Tick now # cs) =
     (idle_within maxTTL la now \<and> touched_in_time maxTTL k la cs)"

section \<open>Basic facts\<close>

lemma fmlookup_Put:
  "fmlookup (Put now k v t) k' =
     (if k' = k then
        (case fmlookup t k of
           Some it \<Rightarrow> Some (it\<lparr>lastAccess := now\<rparr>)
         | None \<Rightarrow> Some \<lparr>item_value = v, lastAccess = now\<rparr>)
      else fmlookup t k')"
  by (simp add: Put_def Let_def split: option.splits)

lemma fmdom_Put: "fmdom (Put now k v t) = finsert k (fmdom t)"
  by (simp add: Put_def Let_def split: option.splits)

lemma fst_Get:
  "fst (Get now k t) = (case fmlookup t k of Some it \<Rightarrow> item_value it | None \<Rightarrow> 0)"
  by (simp add: Get_def split: option.splits)

lemma fmlookup_Get:
  "fmlookup (snd (Get now k t)) k' =
     (if k' = k then map_option (\<lambda>it. it\<lparr>lastAccess := now\<rparr>) (fmlookup t k)
      else fmlookup t k')"
  by (simp add: Get_def split: option.splits)

lemma fmdom_Get: "fmdom (snd (Get now k t)) = fmdom t"
  by (auto simp: Get_def fmdomI finsert_absorb split: option.splits)

lemma fmlookup_sweep_step:
  "fmlookup (sweep_step now maxTTL k t) k' =
     (if k' = k then
        (case fmlookup t k of
           None \<Rightarrow> None
         | Some v \<Rightarrow> if maxTTL <s now - lastAccess v then None else Some v)
      else fmlookup t k')"
  by (simp add: sweep_step_def split: option.splits)

lemma fmlookup_sweep_loop:
  "fmlookup (sweep_loop now maxTTL ks t) k =
     (if k \<in> set ks then
        (case fmlookup t k of
           None \<Rightarrow> None
         | Some v \<Rightarrow> if maxTTL <s now - lastAccess v then None else Some v)
      else fmlookup t k)"
proof (induction ks arbitrary: t)
  case Nil
  then show ?case by (simp add: sweep_loop_def)
next
  case (Cons a ks)
  have unfold: "sweep_loop now maxTTL (a # ks) t =
      sweep_loop now maxTTL ks (sweep_step now maxTTL a t)"
    by (simp add: sweep_loop_def)
  show ?case
    unfolding unfold Cons.IH
    by (simp add: fmlookup_sweep_step split: option.splits)
qed

lemma fmlookup_sweep:
  "fmlookup (sweep now maxTTL t) k =
     (case fmlookup t k of
        None \<Rightarrow> None
      | Some v \<Rightarrow> if maxTTL <s now - lastAccess v then None else Some v)"
proof (cases "fmlookup t k")
  case None
  then show ?thesis
    by (simp add: sweep_def fmlookup_sweep_loop)
next
  case (Some v)
  then have "k |\<in>| fmdom t" by (rule fmdomI)
  then have "k \<in> set (sorted_list_of_fset (fmdom t))" by simp
  then show ?thesis
    by (simp add: sweep_def fmlookup_sweep_loop)
qed

lemma sweep_loop_any_order:
  assumes "fmdom t |\<subseteq>| fset_of_list ks"
  shows "sweep_loop now maxTTL ks t = sweep now maxTTL t"
proof (rule fmap_ext)
  fix k
  show "fmlookup (sweep_loop now maxTTL ks t) k = fmlookup (sweep now maxTTL t) k"
  proof (cases "fmlookup t k")
    case None
    then show ?thesis by (simp add: fmlookup_sweep fmlookup_sweep_loop)
  next
    case (Some v)
    then have "k |\<in>| fmdom t" by (rule fmdomI)
    with assms have "k \<in> set ks" by (auto simp: fset_of_list_elem)
    then show ?thesis by (simp add: fmlookup_sweep fmlookup_sweep_loop)
  qed
qed

lemma Len_Put: "Len (Put now k v t) = (if k |\<in>| fmdom t then Len t else Len t + 1)"
  by (simp add: Len_def fmdom_Put fcard_finsert_if)

lemma Get_absent: "fmlookup t k = None \<Longrightarrow> Get now k t = (0, t)"
  by (simp add: Get_def)

section \<open>Put and Get\<close>

text \<open>
  What \<open>Put\<close> followed by \<open>Get\<close> gives, for every map: the value put when the key was
  absent, the value already stored when the key was present.
\<close>

lemma Put_absent_then_Get:
  "fmlookup t k = None \<Longrightarrow> fst (Get now' k (Put now k v t)) = v"
  by (simp add: fst_Get fmlookup_Put)

lemma Put_present_then_Get:
  "fmlookup t k = Some it \<Longrightarrow> fst (Get now' k (Put now k v t)) = item_value it"
  by (simp add: fst_Get fmlookup_Put)

lemma Put_present_only_refreshes:
  "fmlookup t k = Some it \<Longrightarrow> Put now k v t = fmupd k (it\<lparr>lastAccess := now\<rparr>) t"
  by (simp add: Put_def)

text \<open>
  Claim C1. After \<open>Put(k, v1)\<close> followed by \<open>Put(k, v2)\<close> with no sweep in between,
  \<open>Get(k)\<close> is said to return \<open>v2\<close>. The source only assigns \<open>value\<close> when it creates
  the item (\<^verbatim>\<open>if !ok { it = &item{value: v} ... }\<close>); on a key that is present the
  argument \<open>v\<close> is dropped and only \<open>lastAccess\<close> is written. On a fresh map,
  \<open>Put("a", 1)\<close>, \<open>Put("a", 2)\<close>, \<open>Get("a")\<close> gives 1, not 2.
\<close>

theorem Put_existing_key_keeps_old_value:
  "fst (Get 2 ''a'' (Put 1 ''a'' 2 (Put 0 ''a'' 1 (NewTTLMap 0 10)))) = 1
   \<and> fst (Get 2 ''a'' (Put 1 ''a'' 2 (Put 0 ''a'' 1 (NewTTLMap 0 10)))) \<noteq> 2"
  by (simp add: fst_Get fmlookup_Put NewTTLMap_def)

text \<open>
  Claim C3. Immediately after \<open>Put(k, v)\<close>, \<open>Get(k)\<close> is said to return \<open>v\<close> for every
  key and value. Where the key already holds another value the source keeps that value:
  with \<open>"x"\<close> holding 5, \<open>Put("x", 7)\<close> then \<open>Get("x")\<close> gives 5, not 7.
\<close>

theorem Put_then_Get_on_present_key:
  "fmlookup (Put 0 ''x'' 5 (NewTTLMap 0 1)) ''x'' = Some \<lparr>item_value = 5, lastAccess = 0\<rparr>
   \<and> fst (Get 1 ''x'' (Put 1 ''x'' 7 (Put 0 ''x'' 5 (NewTTLMap 0 1)))) = 5
   \<and> fst (Get 1 ''x'' (Put 1 ''x'' 7 (Put 0 ''x'' 5 (NewTTLMap 0 1)))) \<noteq> 7"
  by (simp add: fst_Get fmlookup_Put NewTTLMap_def)

text \<open>
  Claim C4. \<open>Get\<close> on a key that is absent from the map returns 0, the zero value of
  \<^verbatim>\<open>int\<close>, and nothing else (the result type has no error component): this holds for
  any map without the key, in particular for the fresh map (the key was never put) and
  for a map from which a sweep has removed the key. The answer is the same as the one
  for a key that stores 0.
\<close>

theorem Get_absent_returns_zero:
  "(fmlookup t k = None \<longrightarrow>
      fst (Get now k t) = 0 \<and> fst (Get now k (Put now' k 0 t)) = fst (Get now k t))
   \<and> fst (Get now k (NewTTLMap ln maxTTL)) = 0
   \<and> (fmlookup (sweep now0 maxTTL t) k = None \<longrightarrow>
        fst (Get now k (sweep now0 maxTTL t)) = 0)"
  by (simp add: fst_Get fmlookup_Put NewTTLMap_def)

theorem Get_absent_returns_zero_witness:
  "fmlookup (NewTTLMap 0 10) ''a'' = None
   \<and> fst (Get 3 ''a'' (NewTTLMap 0 10)) = 0
   \<and> fst (Get 3 ''a'' (Put 2 ''a'' 0 (NewTTLMap 0 10))) = fst (Get 3 ''a'' (NewTTLMap 0 10))
   \<and> fmlookup (sweep 9 2 (Put 1 ''a'' 7 (NewTTLMap 0 2))) ''a'' = None
   \<and> fst (Get 9 ''a'' (sweep 9 2 (Put 1 ''a'' 7 (NewTTLMap 0 2)))) = 0"
proof -
  note A = Get_absent_returns_zero
    [where t = "NewTTLMap 0 10" and k = "''a''" and now = 3 and now' = 2]
  note B = Get_absent_returns_zero
    [where t = "Put 1 ''a'' 7 (NewTTLMap 0 2)" and k = "''a''" and now = 9
       and ?now0.0 = 9 and maxTTL = 2]
  have h1: "fmlookup (NewTTLMap 0 10) ''a'' = None"
    by (simp add: NewTTLMap_def)
  have h2: "fmlookup (sweep 9 2 (Put 1 ''a'' 7 (NewTTLMap 0 2))) ''a'' = None"
    by (simp add: fmlookup_sweep fmlookup_Put NewTTLMap_def)
  note a = A [THEN conjunct1, rule_format, OF h1]
  note b = B [THEN conjunct2, THEN conjunct2, rule_format, OF h2]
  show ?thesis
    by (intro conjI) (rule h1 h2 a [THEN conjunct1] a [THEN conjunct2] b)+
qed

text \<open>
  Claim C8. \<open>Get\<close> on an absent key leaves the map as it was: the map after the call is
  the map before it, so no entry is created, every key looks up the same item (value
  and \<open>lastAccess\<close>), and \<open>Len\<close> is unchanged.
\<close>

theorem Get_absent_leaves_map_unchanged:
  "fmlookup t k = None \<Longrightarrow>
     snd (Get now k t) = t
     \<and> fmdom (snd (Get now k t)) = fmdom t
     \<and> (\<forall>k'. fmlookup (snd (Get now k t)) k' = fmlookup t k')
     \<and> Len (snd (Get now k t)) = Len t"
  by (simp add: Get_absent)

theorem Get_absent_leaves_map_unchanged_witness:
  "fmlookup (Put 1 ''a'' 7 (NewTTLMap 0 2)) ''b'' = None
   \<and> snd (Get 5 ''b'' (Put 1 ''a'' 7 (NewTTLMap 0 2))) = Put 1 ''a'' 7 (NewTTLMap 0 2)
   \<and> Len (snd (Get 5 ''b'' (Put 1 ''a'' 7 (NewTTLMap 0 2)))) = Len (Put 1 ''a'' 7 (NewTTLMap 0 2))"
proof -
  have h: "fmlookup (Put 1 ''a'' 7 (NewTTLMap 0 2)) ''b'' = None"
    by (simp add: fmlookup_Put NewTTLMap_def)
  note A = Get_absent_leaves_map_unchanged [OF h, where now = 5]
  show ?thesis
    by (intro conjI)
      (rule h A [THEN conjunct1] A [THEN conjunct2, THEN conjunct2, THEN conjunct2])+
qed

text \<open>
  Claim C10. \<open>Put(k, v)\<close> removes no entry and touches no entry but the one of \<open>k\<close>:
  every other key looks up the same item (value and \<open>lastAccess\<close>) as before, every key
  of the old map is a key of the new one, and \<open>Len\<close> stays the same when \<open>k\<close> was
  present and grows by one when it was absent.
\<close>

theorem Put_changes_only_its_key:
  "(\<forall>k'. k' \<noteq> k \<longrightarrow> fmlookup (Put now k v t) k' = fmlookup t k')
   \<and> fmdom t |\<subseteq>| fmdom (Put now k v t)
   \<and> (k |\<in>| fmdom t \<longrightarrow> Len (Put now k v t) = Len t)
   \<and> (k |\<notin>| fmdom t \<longrightarrow> Len (Put now k v t) = Len t + 1)"
  by (auto simp: fmlookup_Put fmdom_Put Len_Put)

theorem Put_changes_only_its_key_witness:
  "''b'' \<noteq> ''a''
   \<and> fmlookup (Put 4 ''a'' 9 (Put 1 ''a'' 7 (Put 0 ''b'' 3 (NewTTLMap 0 2)))) ''b''
       = fmlookup (Put 1 ''a'' 7 (Put 0 ''b'' 3 (NewTTLMap 0 2))) ''b''
   \<and> ''a'' |\<in>| fmdom (Put 1 ''a'' 7 (Put 0 ''b'' 3 (NewTTLMap 0 2)))
   \<and> Len (Put 4 ''a'' 9 (Put 1 ''a'' 7 (Put 0 ''b'' 3 (NewTTLMap 0 2))))
       = Len (Put 1 ''a'' 7 (Put 0 ''b'' 3 (NewTTLMap 0 2)))
   \<and> ''a'' |\<notin>| fmdom (Put 0 ''b'' 3 (NewTTLMap 0 2))
   \<and> Len (Put 1 ''a'' 7 (Put 0 ''b'' 3 (NewTTLMap 0 2)))
       = Len (Put 0 ''b'' 3 (NewTTLMap 0 2)) + 1"
proof -
  note A = Put_changes_only_its_key
    [where k = "''a''" and now = 4 and v = 9 and t = "Put 1 ''a'' 7 (Put 0 ''b'' 3 (NewTTLMap 0 2))"]
  note B = Put_changes_only_its_key
    [where k = "''a''" and now = 1 and v = 7 and t = "Put 0 ''b'' 3 (NewTTLMap 0 2)"]
  have h1: "''b'' \<noteq> ''a''" by simp
  have h2: "''a'' |\<in>| fmdom (Put 1 ''a'' 7 (Put 0 ''b'' 3 (NewTTLMap 0 2)))"
    by (simp add: fmdom_Put)
  have h3: "''a'' |\<notin>| fmdom (Put 0 ''b'' 3 (NewTTLMap 0 2))"
    by (simp add: fmdom_Put NewTTLMap_def)
  note c1 = A [THEN conjunct1, rule_format, OF h1]
  note c2 = A [THEN conjunct2, THEN conjunct2, THEN conjunct1, rule_format, OF h2]
  note c3 = B [THEN conjunct2, THEN conjunct2, THEN conjunct2, rule_format, OF h3]
  show ?thesis
    by (intro conjI) (rule h1 c1 h2 c2 h3 c3)+
qed

section \<open>The sweeper\<close>

lemma sint_sub_no_wrap:
  fixes a b :: "64 word"
  assumes "- (2 ^ 63) \<le> sint a - sint b" and "sint a - sint b < 2 ^ 63"
  shows "sint (a - b) = sint a - sint b"
proof -
  have "sint (a - b) = signed_take_bit 63 (sint a - sint b)"
    by (simp add: sint_word_ariths)
  also have "\<dots> = sint a - sint b"
    using assms by (simp add: signed_take_bit_int_eq_self)
  finally show ?thesis .
qed

lemma sint_less_2p63: "sint (x :: 64 word) < 2 ^ 63"
  using sint_lt [of x] by simp

lemma idle_within_not_expired:
  assumes "idle_within maxTTL la now"
  shows "\<not> maxTTL <s now - la"
proof -
  from assms have le: "sint now - sint la \<le> sint maxTTL"
    and lo: "- (2 ^ 63) \<le> sint now - sint la"
    by (simp_all add: idle_within_def)
  from le sint_less_2p63 [of maxTTL] have hi: "sint now - sint la < 2 ^ 63"
    by linarith
  from lo hi have "sint (now - la) = sint now - sint la"
    by (rule sint_sub_no_wrap)
  with le show ?thesis
    by (simp add: word_sless_alt)
qed

text \<open>
  Claim C2. A sweep pass at time \<open>now\<close> removes an entry exactly when \<open>now\<close> minus the
  entry's \<open>lastAccess\<close> is strictly greater than \<open>maxTTL\<close>: first for the difference as
  the code computes it on \<^verbatim>\<open>int64\<close>, then for the difference of the two clock values
  as integers, wherever that difference is in the range of \<^verbatim>\<open>int64\<close>. An entry whose
  idle time equals \<open>maxTTL\<close> exactly survives the sweep, unchanged.
\<close>

theorem sweep_removes_iff_idle_exceeds_ttl:
  assumes present: "fmlookup t k = Some v"
  shows "(fmlookup (sweep now maxTTL t) k = None \<longleftrightarrow> maxTTL <s now - lastAccess v)
    \<and> (- (2 ^ 63) \<le> sint now - sint (lastAccess v) \<and> sint now - sint (lastAccess v) < 2 ^ 63
        \<longrightarrow> (fmlookup (sweep now maxTTL t) k = None
               \<longleftrightarrow> sint maxTTL < sint now - sint (lastAccess v)))
    \<and> (sint now - sint (lastAccess v) = sint maxTTL
        \<longrightarrow> fmlookup (sweep now maxTTL t) k = Some v)"
proof (intro conjI impI)
  show word: "fmlookup (sweep now maxTTL t) k = None \<longleftrightarrow> maxTTL <s now - lastAccess v"
    using present by (simp add: fmlookup_sweep)
  show "fmlookup (sweep now maxTTL t) k = None
      \<longleftrightarrow> sint maxTTL < sint now - sint (lastAccess v)"
    if "- (2 ^ 63) \<le> sint now - sint (lastAccess v) \<and> sint now - sint (lastAccess v) < 2 ^ 63"
  proof -
    from that have "sint (now - lastAccess v) = sint now - sint (lastAccess v)"
      by (simp add: sint_sub_no_wrap)
    with word show ?thesis
      by (simp add: word_sless_alt)
  qed
  show "fmlookup (sweep now maxTTL t) k = Some v"
    if eq: "sint now - sint (lastAccess v) = sint maxTTL"
  proof -
    have "idle_within maxTTL (lastAccess v) now"
      using eq sint_ge [of maxTTL] by (simp add: idle_within_def)
    then have "\<not> maxTTL <s now - lastAccess v"
      by (rule idle_within_not_expired)
    with present show ?thesis
      by (simp add: fmlookup_sweep)
  qed
qed

theorem sweep_removes_iff_idle_exceeds_ttl_witness:
  "fmlookup (Put 10 ''a'' 1 (NewTTLMap 0 2)) ''a'' = Some \<lparr>item_value = 1, lastAccess = 10\<rparr>
   \<and> - (2 ^ 63) \<le> sint (13 :: int64) - sint (10 :: int64)
   \<and> sint (13 :: int64) - sint (10 :: int64) < 2 ^ 63
   \<and> sint (2 :: go_int) < sint (13 :: int64) - sint (10 :: int64)
   \<and> fmlookup (sweep 13 2 (Put 10 ''a'' 1 (NewTTLMap 0 2))) ''a'' = None
   \<and> sint (12 :: int64) - sint (10 :: int64) = sint (2 :: go_int)
   \<and> fmlookup (sweep 12 2 (Put 10 ''a'' 1 (NewTTLMap 0 2))) ''a''
       = Some \<lparr>item_value = 1, lastAccess = 10\<rparr>"
proof -
  have h: "fmlookup (Put 10 ''a'' 1 (NewTTLMap 0 2)) ''a''
      = Some \<lparr>item_value = 1, lastAccess = 10\<rparr>"
    by (simp add: fmlookup_Put NewTTLMap_def)
  note A = sweep_removes_iff_idle_exceeds_ttl [OF h, where now = 13 and maxTTL = 2]
  note B = sweep_removes_iff_idle_exceeds_ttl [OF h, where now = 12 and maxTTL = 2]
  have r1: "- (2 ^ 63) \<le> sint (13 :: int64) - sint (10 :: int64)" by simp
  have r2: "sint (13 :: int64) - sint (10 :: int64) < 2 ^ 63" by simp
  have r3: "sint (2 :: go_int) < sint (13 :: int64) - sint (10 :: int64)" by simp
  have r4: "sint (12 :: int64) - sint (10 :: int64) = sint (2 :: go_int)" by simp
  have r12: "- (2 ^ 63) \<le> sint (13 :: int64) - sint (lastAccess \<lparr>item_value = 1, lastAccess = 10\<rparr>)
      \<and> sint (13 :: int64) - sint (lastAccess \<lparr>item_value = 1, lastAccess = 10\<rparr>) < 2 ^ 63"
    by simp
  have r3': "sint (2 :: go_int) < sint (13 :: int64) - sint (lastAccess \<lparr>item_value = 1, lastAccess = 10\<rparr>)"
    by simp
  have r4': "sint (12 :: int64) - sint (lastAccess \<lparr>item_value = 1, lastAccess = 10\<rparr>) = sint (2 :: go_int)"
    by simp
  note gone = A [THEN conjunct2, THEN conjunct1, rule_format, OF r12, THEN iffD2, OF r3']
  note kept = B [THEN conjunct2, THEN conjunct2, rule_format, OF r4']
  show ?thesis
    by (intro conjI) (rule h r1 r2 r3 r4 gone kept)+
qed

text \<open>
  Claim C6. A sweep that evicts \<open>k\<close> leaves nothing of the entry behind, and a \<open>Put(k, v)\<close>
  after it acts as on a key that was never there: the new entry has value \<open>v\<close> and
  \<open>lastAccess\<close> equal to the clock of that \<open>Put\<close>, the same entry a \<open>Put\<close> on a fresh
  map creates, and \<open>Get\<close> then returns \<open>v\<close>.
\<close>

theorem Put_after_eviction_is_fresh:
  assumes "k |\<in>| fmdom t" and "k |\<notin>| fmdom (sweep now maxTTL t)"
  shows "fmlookup (sweep now maxTTL t) k = None
    \<and> fmlookup (Put now' k v (sweep now maxTTL t)) k
        = Some \<lparr>item_value = v, lastAccess = now'\<rparr>
    \<and> fmlookup (Put now' k v (sweep now maxTTL t)) k
        = fmlookup (Put now' k v (NewTTLMap ln maxTTL)) k
    \<and> fst (Get now'' k (Put now' k v (sweep now maxTTL t))) = v"
proof -
  from assms(2) have gone: "fmlookup (sweep now maxTTL t) k = None"
    by (rule fmdom_notD)
  then show ?thesis
    by (simp add: fmlookup_Put fst_Get NewTTLMap_def)
qed

theorem Put_after_eviction_is_fresh_witness:
  "''a'' |\<in>| fmdom (Put 10 ''a'' 1 (NewTTLMap 0 2))
   \<and> ''a'' |\<notin>| fmdom (sweep 13 2 (Put 10 ''a'' 1 (NewTTLMap 0 2)))
   \<and> fmlookup (Put 14 ''a'' 8 (sweep 13 2 (Put 10 ''a'' 1 (NewTTLMap 0 2)))) ''a''
       = Some \<lparr>item_value = 8, lastAccess = 14\<rparr>
   \<and> fst (Get 15 ''a'' (Put 14 ''a'' 8 (sweep 13 2 (Put 10 ''a'' 1 (NewTTLMap 0 2))))) = 8"
proof -
  have h1: "''a'' |\<in>| fmdom (Put 10 ''a'' 1 (NewTTLMap 0 2))"
    by (simp add: fmdom_Put)
  have "fmlookup (sweep 13 2 (Put 10 ''a'' 1 (NewTTLMap 0 2))) ''a'' = None"
    by (simp add: fmlookup_sweep fmlookup_Put NewTTLMap_def)
  then have h2: "''a'' |\<notin>| fmdom (sweep 13 2 (Put 10 ''a'' 1 (NewTTLMap 0 2)))"
    by (rule fmdom_notI)
  note A = Put_after_eviction_is_fresh [OF h1 h2, where now' = 14 and v = 8 and now'' = 15]
  show ?thesis
    by (intro conjI)
      (rule h1 h2 A [THEN conjunct2, THEN conjunct1]
        A [THEN conjunct2, THEN conjunct2, THEN conjunct2])+
qed

lemma fmdom_sweep_subset: "fmdom (sweep now maxTTL t) |\<subseteq>| fmdom t"
proof
  fix k
  assume "k |\<in>| fmdom (sweep now maxTTL t)"
  then obtain v where "fmlookup (sweep now maxTTL t) k = Some v"
    by (auto simp: fmlookup_dom_iff)
  then have "fmlookup t k \<noteq> None"
    by (auto simp: fmlookup_sweep split: option.splits)
  then show "k |\<in>| fmdom t"
    by (auto simp: fmlookup_dom_iff)
qed

text \<open>
  Claim C9. A sweep pass adds nothing and changes nothing it keeps: the keys after the
  sweep are among the keys before it, every key that survives looks up the very item
  (value and \<open>lastAccess\<close>) it had before, a key that was absent stays absent, and \<open>Len\<close>
  does not grow.
\<close>

theorem sweep_keeps_survivors_unchanged:
  "fmdom (sweep now maxTTL t) |\<subseteq>| fmdom t
   \<and> (\<forall>k v. fmlookup (sweep now maxTTL t) k = Some v \<longrightarrow> fmlookup t k = Some v)
   \<and> (\<forall>k. fmlookup t k = None \<longrightarrow> fmlookup (sweep now maxTTL t) k = None)
   \<and> Len (sweep now maxTTL t) \<le> Len t"
proof (intro conjI allI impI)
  show sub: "fmdom (sweep now maxTTL t) |\<subseteq>| fmdom t"
    by (rule fmdom_sweep_subset)
  show "fmlookup t k = Some v" if "fmlookup (sweep now maxTTL t) k = Some v" for k v
    using that by (simp add: fmlookup_sweep split: option.splits if_splits)
  show "fmlookup (sweep now maxTTL t) k = None" if "fmlookup t k = None" for k
    using that by (simp add: fmlookup_sweep)
  show "Len (sweep now maxTTL t) \<le> Len t"
    unfolding Len_def using sub by (rule fcard_mono)
qed

theorem sweep_keeps_survivors_unchanged_witness:
  "fmlookup (sweep 12 2 (Put 11 ''b'' 4 (Put 7 ''a'' 1 (NewTTLMap 0 2)))) ''b''
     = Some \<lparr>item_value = 4, lastAccess = 11\<rparr>
   \<and> fmlookup (Put 11 ''b'' 4 (Put 7 ''a'' 1 (NewTTLMap 0 2))) ''b''
     = Some \<lparr>item_value = 4, lastAccess = 11\<rparr>
   \<and> fmlookup (Put 11 ''b'' 4 (Put 7 ''a'' 1 (NewTTLMap 0 2))) ''c'' = None
   \<and> fmlookup (sweep 12 2 (Put 11 ''b'' 4 (Put 7 ''a'' 1 (NewTTLMap 0 2)))) ''c'' = None"
proof -
  note A = sweep_keeps_survivors_unchanged
    [where now = 12 and maxTTL = 2 and t = "Put 11 ''b'' 4 (Put 7 ''a'' 1 (NewTTLMap 0 2))"]
  have h1: "fmlookup (sweep 12 2 (Put 11 ''b'' 4 (Put 7 ''a'' 1 (NewTTLMap 0 2)))) ''b''
      = Some \<lparr>item_value = 4, lastAccess = 11\<rparr>"
    by (simp add: fmlookup_sweep fmlookup_Put NewTTLMap_def word_sless_alt)
  have h2: "fmlookup (Put 11 ''b'' 4 (Put 7 ''a'' 1 (NewTTLMap 0 2))) ''c'' = None"
    by (simp add: fmlookup_Put NewTTLMap_def)
  note kept = A [THEN conjunct2, THEN conjunct1, rule_format, OF h1]
  note none = A [THEN conjunct2, THEN conjunct2, THEN conjunct1, rule_format, OF h2]
  show ?thesis
    by (intro conjI) (rule h1 h2 kept none)+
qed

section \<open>Runs of calls\<close>

lemma put_calls_Cons: "put_calls ((now, k, v) # ps) = CallPut now k v # put_calls ps"
  by (simp add: put_calls_def)

lemma fmdom_run_put_calls:
  "fmdom (run maxTTL (put_calls ps) t) = fmdom t |\<union>| fset_of_list (map (fst \<circ> snd) ps)"
proof (induction ps arbitrary: t)
  case Nil
  show ?case by (simp add: put_calls_def)
next
  case (Cons p ps)
  obtain now k v where p: "p = (now, k, v)"
    by (cases p)
  have "fmdom (run maxTTL (put_calls (p # ps)) t)
      = fmdom (run maxTTL (put_calls ps) (Put now k v t))"
    by (simp add: p put_calls_Cons)
  also have "\<dots> = fmdom (Put now k v t) |\<union>| fset_of_list (map (fst \<circ> snd) ps)"
    by (rule Cons.IH)
  also have "\<dots> = fmdom t |\<union>| fset_of_list (map (fst \<circ> snd) (p # ps))"
    by (simp add: p fmdom_Put)
  finally show ?case .
qed

lemma fcard_fset_of_list_distinct: "distinct xs \<Longrightarrow> fcard (fset_of_list xs) = length xs"
  by (simp add: fcard.rep_eq fset_of_list.rep_eq distinct_card)

text \<open>
  Claim C7. \<open>Len\<close> is the number of entries of the map (the number of keys that look up
  an item), and after a \<open>Put\<close> for each of \<open>N\<close> pairwise distinct keys on a fresh map,
  with no sweep in between, \<open>Len\<close> is \<open>N\<close>.
\<close>

theorem Len_counts_entries:
  "Len t = card {k. fmlookup t k \<noteq> None}
   \<and> (distinct (map (fst \<circ> snd) ps) \<longrightarrow>
        Len (run maxTTL (put_calls ps) (NewTTLMap ln maxTTL)) = length ps)"
proof (intro conjI impI)
  have "fset (fmdom t) = {k. fmlookup t k \<noteq> None}"
    by (auto simp: fmlookup_dom_iff)
  then show "Len t = card {k. fmlookup t k \<noteq> None}"
    by (simp add: Len_def fcard.rep_eq)
  assume d: "distinct (map (fst \<circ> snd) ps)"
  have "Len (run maxTTL (put_calls ps) (NewTTLMap ln maxTTL))
      = fcard (fset_of_list (map (fst \<circ> snd) ps))"
    by (simp add: Len_def fmdom_run_put_calls NewTTLMap_def)
  also from d have "\<dots> = length (map (fst \<circ> snd) ps)"
    by (rule fcard_fset_of_list_distinct)
  finally show "Len (run maxTTL (put_calls ps) (NewTTLMap ln maxTTL)) = length ps"
    by simp
qed

theorem Len_counts_entries_witness:
  "distinct (map (fst \<circ> snd) [(1 :: int64, ''a'', 5 :: go_int), (1, ''b'', 5), (2, ''c'', 0)])
   \<and> Len (run 10 (put_calls [(1, ''a'', 5), (1, ''b'', 5), (2, ''c'', 0)]) (NewTTLMap 0 10))
       = length [(1 :: int64, ''a'', 5 :: go_int), (1, ''b'', 5), (2, ''c'', 0)]"
proof -
  have h: "distinct (map (fst \<circ> snd) [(1 :: int64, ''a'', 5 :: go_int), (1, ''b'', 5), (2, ''c'', 0)])"
    by simp
  note A = Len_counts_entries
    [where ps = "[(1, ''a'', 5), (1, ''b'', 5), (2, ''c'', 0)]" and maxTTL = 10 and ln = 0]
  show ?thesis
    by (intro conjI) (rule h A [THEN conjunct2, rule_format, OF h])+
qed

section \<open>Sliding expiration\<close>

lemma sweep_keeps_within:
  assumes "fmlookup t k = Some it" and "idle_within maxTTL (lastAccess it) now"
  shows "fmlookup (sweep now maxTTL t) k = Some it"
proof -
  from assms(2) have "\<not> maxTTL <s now - lastAccess it"
    by (rule idle_within_not_expired)
  with assms(1) show ?thesis
    by (simp add: fmlookup_sweep)
qed

lemma run_keeps_touched:
  assumes "fmlookup t k = Some it" and "touched_in_time maxTTL k (lastAccess it) cs"
  shows "\<exists>it'. fmlookup (run maxTTL cs t) k = Some it' \<and> item_value it' = item_value it"
  using assms
proof (induction cs arbitrary: t it)
  case Nil
  then show ?case by simp
next
  case (Cons c cs)
  show ?case
  proof (cases c)
    case (CallPut now k' v)
    let ?it = "if k' = k then it\<lparr>lastAccess := now\<rparr> else it"
    have look: "fmlookup (step maxTTL c t) k = Some ?it"
      using Cons.prems(1) by (cases "k' = k") (simp_all add: CallPut fmlookup_Put)
    have touched: "touched_in_time maxTTL k (lastAccess ?it) cs"
      using Cons.prems(2) by (cases "k' = k") (simp_all add: CallPut)
    from Cons.IH [OF look touched] show ?thesis
      by (cases "k' = k") simp_all
  next
    case (CallGet now k')
    let ?it = "if k' = k then it\<lparr>lastAccess := now\<rparr> else it"
    have look: "fmlookup (step maxTTL c t) k = Some ?it"
      using Cons.prems(1) by (cases "k' = k") (simp_all add: CallGet fmlookup_Get)
    have touched: "touched_in_time maxTTL k (lastAccess ?it) cs"
      using Cons.prems(2) by (cases "k' = k") (simp_all add: CallGet)
    from Cons.IH [OF look touched] show ?thesis
      by (cases "k' = k") simp_all
  next
    case (Tick now)
    from Cons.prems(2) have within: "idle_within maxTTL (lastAccess it) now"
      and touched: "touched_in_time maxTTL k (lastAccess it) cs"
      by (simp_all add: Tick)
    from Cons.prems(1) within have look: "fmlookup (step maxTTL c t) k = Some it"
      by (simp add: Tick sweep_keeps_within)
    from Cons.IH [OF look touched] show ?thesis
      by simp
  qed
qed

text \<open>
  Claim C5. Sliding expiration. A \<open>Get\<close> on a present key sets the entry's \<open>lastAccess\<close>
  to the clock of the call. An entry touched by \<open>Put\<close> or \<open>Get\<close> at time \<open>now\<close> is still
  there after a sweep at any time \<open>now'\<close> whose distance \<open>now' - now\<close> is at most
  \<open>maxTTL\<close>. Along any sequence of calls and ticks in which every tick comes at most
  \<open>maxTTL\<close> after the latest \<open>Put\<close> or \<open>Get\<close> on the key, an entry that is present at
  the start is never evicted. (Clock differences are read as integers and are not below
  the range of \<^verbatim>\<open>int64\<close>, see \<open>idle_within\<close>.)
\<close>

theorem sliding_expiration:
  "(fmlookup t k = Some it \<longrightarrow>
      fmlookup (snd (Get now k t)) k = Some (it\<lparr>lastAccess := now\<rparr>))
   \<and> (idle_within maxTTL now now' \<longrightarrow> k |\<in>| fmdom (sweep now' maxTTL (Put now k v t)))
   \<and> (k |\<in>| fmdom t \<and> idle_within maxTTL now now' \<longrightarrow>
        k |\<in>| fmdom (sweep now' maxTTL (snd (Get now k t))))
   \<and> (fmlookup t k = Some it \<and> touched_in_time maxTTL k (lastAccess it) cs \<longrightarrow>
        k |\<in>| fmdom (run maxTTL cs t))"
proof (intro conjI impI)
  show "fmlookup (snd (Get now k t)) k = Some (it\<lparr>lastAccess := now\<rparr>)"
    if "fmlookup t k = Some it"
    using that by (simp add: fmlookup_Get)
  show "k |\<in>| fmdom (sweep now' maxTTL (Put now k v t))"
    if within: "idle_within maxTTL now now'"
  proof -
    obtain it' where look: "fmlookup (Put now k v t) k = Some it'" and la: "lastAccess it' = now"
      by (cases "fmlookup t k") (simp_all add: fmlookup_Put)
    from within la have "idle_within maxTTL (lastAccess it') now'"
      by simp
    with look have "fmlookup (sweep now' maxTTL (Put now k v t)) k = Some it'"
      by (rule sweep_keeps_within)
    then show ?thesis
      by (rule fmdomI)
  qed
  show "k |\<in>| fmdom (sweep now' maxTTL (snd (Get now k t)))"
    if "k |\<in>| fmdom t \<and> idle_within maxTTL now now'"
  proof -
    from that obtain it0 where "fmlookup t k = Some it0"
      by (auto simp: fmlookup_dom_iff)
    then have look: "fmlookup (snd (Get now k t)) k = Some (it0\<lparr>lastAccess := now\<rparr>)"
      by (simp add: fmlookup_Get)
    from that have "idle_within maxTTL (lastAccess (it0\<lparr>lastAccess := now\<rparr>)) now'"
      by simp
    with look have "fmlookup (sweep now' maxTTL (snd (Get now k t))) k
        = Some (it0\<lparr>lastAccess := now\<rparr>)"
      by (rule sweep_keeps_within)
    then show ?thesis
      by (rule fmdomI)
  qed
  show "k |\<in>| fmdom (run maxTTL cs t)"
    if "fmlookup t k = Some it \<and> touched_in_time maxTTL k (lastAccess it) cs"
  proof -
    from that run_keeps_touched [of t k it maxTTL cs]
    obtain it' where "fmlookup (run maxTTL cs t) k = Some it'"
      by auto
    then show ?thesis
      by (rule fmdomI)
  qed
qed

theorem sliding_expiration_witness:
  "fmlookup (Put 10 ''a'' 1 (NewTTLMap 0 2)) ''a'' = Some \<lparr>item_value = 1, lastAccess = 10\<rparr>
   \<and> fmlookup (snd (Get 11 ''a'' (Put 10 ''a'' 1 (NewTTLMap 0 2)))) ''a''
       = Some (\<lparr>item_value = 1, lastAccess = 10\<rparr>\<lparr>lastAccess := 11\<rparr>)
   \<and> idle_within 2 11 13
   \<and> ''a'' |\<in>| fmdom (sweep 13 2 (Put 11 ''a'' 3 (Put 10 ''a'' 1 (NewTTLMap 0 2))))
   \<and> ''a'' |\<in>| fmdom (Put 10 ''a'' 1 (NewTTLMap 0 2))
   \<and> ''a'' |\<in>| fmdom (sweep 13 2 (snd (Get 11 ''a'' (Put 10 ''a'' 1 (NewTTLMap 0 2)))))
   \<and> touched_in_time 2 ''a'' 10
        [Tick 11, Tick 12, CallGet 12 ''a'', Tick 13, CallPut 13 ''b'' 4, Tick 14,
         CallPut 15 ''a'' 9, Tick 16, Tick 17]
   \<and> ''a'' |\<in>| fmdom (run 2
        [Tick 11, Tick 12, CallGet 12 ''a'', Tick 13, CallPut 13 ''b'' 4, Tick 14,
         CallPut 15 ''a'' 9, Tick 16, Tick 17]
        (Put 10 ''a'' 1 (NewTTLMap 0 2)))"
proof -
  note A = sliding_expiration
    [where t = "Put 10 ''a'' 1 (NewTTLMap 0 2)" and k = "''a''"
       and it = "\<lparr>item_value = 1, lastAccess = 10\<rparr>" and now = 11 and now' = 13
       and maxTTL = 2 and v = 3
       and cs = "[Tick 11, Tick 12, CallGet 12 ''a'', Tick 13, CallPut 13 ''b'' 4, Tick 14,
         CallPut 15 ''a'' 9, Tick 16, Tick 17]"]
  have h1: "fmlookup (Put 10 ''a'' 1 (NewTTLMap 0 2)) ''a''
      = Some \<lparr>item_value = 1, lastAccess = 10\<rparr>"
    by (simp add: fmlookup_Put NewTTLMap_def)
  have h2: "idle_within 2 11 13"
    by (simp add: idle_within_def)
  have h3: "''a'' |\<in>| fmdom (Put 10 ''a'' 1 (NewTTLMap 0 2))"
    by (simp add: fmdom_Put)
  have h4: "touched_in_time 2 ''a'' 10
        [Tick 11, Tick 12, CallGet 12 ''a'', Tick 13, CallPut 13 ''b'' 4, Tick 14,
         CallPut 15 ''a'' 9, Tick 16, Tick 17]"
    by (simp add: idle_within_def)
  have h4': "touched_in_time 2 ''a'' (lastAccess \<lparr>item_value = 1, lastAccess = 10\<rparr>)
        [Tick 11, Tick 12, CallGet 12 ''a'', Tick 13, CallPut 13 ''b'' 4, Tick 14,
         CallPut 15 ''a'' 9, Tick 16, Tick 17]"
    using h4 by simp
  note c1 = A [THEN conjunct1, rule_format, OF h1]
  note c2 = A [THEN conjunct2, THEN conjunct1, rule_format, OF h2]
  note c3 = A [THEN conjunct2, THEN conjunct2, THEN conjunct1, rule_format, OF conjI [OF h3 h2]]
  note c4 = A [THEN conjunct2, THEN conjunct2, THEN conjunct2, rule_format, OF conjI [OF h1 h4']]
  show ?thesis
    by (intro conjI) (rule h1 h2 h3 h4 c1 c2 c3 c4)+
qed

end
